theory Spec2Isabelle
  imports Main "HOL-Library.Multiset"
begin

section \<open>Python strings\<close>

text \<open>
  A Python \<open>str\<close> is modelled as a \<open>string\<close>; a \<open>char\<close> stands for a code point
  below 256. \<open>isspace\<close> is \<open>str.isspace\<close> on one character, which is also what the
  regular expression class \<open>\s\<close> matches and what \<open>str.split()\<close> and \<open>str.strip()\<close>
  treat as white space: code points 9 to 13, 28 to 32, 133 and 160 in that range.
  \<open>isword\<close> is the class \<open>\w\<close>: the alphanumeric characters of that range
  (letters, digits, and the characters Python counts as numeric) and the underscore.
\<close>

datatype py_error = ValueError | IndexError

definition isspace :: "char \<Rightarrow> bool" where
  "isspace c = (let n = (of_char c :: nat) in
     (9 \<le> n \<and> n \<le> 13) \<or> (28 \<le> n \<and> n \<le> 32) \<or> n = 133 \<or> n = 160)"

definition isalnum :: "char \<Rightarrow> bool" where
  "isalnum c = (let n = (of_char c :: nat) in
     (48 \<le> n \<and> n \<le> 57) \<or> (65 \<le> n \<and> n \<le> 90) \<or> (97 \<le> n \<and> n \<le> 122) \<or>
     n = 170 \<or> n = 178 \<or> n = 179 \<or> n = 181 \<or> n = 185 \<or> n = 186 \<or>
     (188 \<le> n \<and> n \<le> 190) \<or> (192 \<le> n \<and> n \<le> 214) \<or> (216 \<le> n \<and> n \<le> 246) \<or>
     (248 \<le> n \<and> n \<le> 255))"

definition isword :: "char \<Rightarrow> bool" where
  "isword c = (isalnum c \<or> c = CHR ''_'')"

text \<open>\<open>s.strip()\<close>: white space removed at both ends.\<close>

definition strip :: "string \<Rightarrow> string" where
  "strip s = rev (dropWhile isspace (rev (dropWhile isspace s)))"

text \<open>\<open>re.sub(r"\s+", " ", s)\<close>: every maximal run of white space becomes one space.\<close>

function collapse_ws :: "string \<Rightarrow> string" where
  "collapse_ws [] = []"
| "collapse_ws (c # cs) =
     (if isspace c then CHR '' '' # collapse_ws (dropWhile isspace cs)
      else c # collapse_ws cs)"
  by pat_completeness auto
termination
  by (relation "measure length") (auto simp: length_dropWhile_le less_Suc_eq_le)

text \<open>
  \<open>s.split()\<close>: the maximal runs of characters that are not white space, in order.
  The first argument is the word being read.
\<close>

fun py_split_aux :: "string \<Rightarrow> string \<Rightarrow> string list" where
  "py_split_aux w [] = (if w = [] then [] else [w])"
| "py_split_aux w (c # cs) =
     (if isspace c then (if w = [] then py_split_aux [] cs else w # py_split_aux [] cs)
      else py_split_aux (w @ [c]) cs)"

definition py_split :: "string \<Rightarrow> string list" where
  "py_split s = py_split_aux [] s"

text \<open>\<open>sep.join(xs)\<close>.\<close>

fun join :: "string \<Rightarrow> string list \<Rightarrow> string" where
  "join sep [] = []"
| "join sep [x] = x"
| "join sep (x # y # ys) = x @ sep @ join sep (y # ys)"

text \<open>
  \<open>re.split(r"(?<=[.!?])\s+", t)\<close>: a match starts at a white space character whose
  predecessor is one of \<open>.\<close>, \<open>!\<close>, \<open>?\<close> and takes the whole run of white space; the
  pieces between the matches are returned, the last one also when it is empty. The
  flag says whether the lookbehind holds at the current position, the second argument
  is the piece being read.
\<close>

definition is_terminal :: "char \<Rightarrow> bool" where
  "is_terminal c = (c = CHR ''.'' \<or> c = CHR ''!'' \<or> c = CHR ''?'')"

function re_split_sentences :: "bool \<Rightarrow> string \<Rightarrow> string \<Rightarrow> string list" where
  "re_split_sentences lb piece [] = [piece]"
| "re_split_sentences lb piece (c # cs) =
     (if lb \<and> isspace c then piece # re_split_sentences False [] (dropWhile isspace cs)
      else re_split_sentences (is_terminal c) (piece @ [c]) cs)"
  by pat_completeness auto
termination
  by (relation "measure (\<lambda>(lb, piece, cs). length cs)")
    (auto simp: length_dropWhile_le less_Suc_eq_le)

section \<open>The sentence chunker (main.py)\<close>

text \<open>The local variables \<open>chunks\<close>, \<open>cur\<close> and \<open>cur_words\<close> of the function.\<close>

record chunker =
  chunks :: "string list"
  cur :: "string list"
  cur_words :: int

definition flush :: "chunker \<Rightarrow> chunker" where
  "flush st =
     (if cur st \<noteq> [] then
        st\<lparr>chunks := chunks st @ [strip (join '' '' (cur st))], cur := [], cur_words := 0\<rparr>
      else st)"

text \<open>
  \<open>[w[i:i+step] for i in range(i0, len(w), step)]\<close> for a positive step. A step of
  zero makes \<open>range\<close> raise and a negative one makes it empty; \<open>hard_split\<close> decides
  these before it comes here.
\<close>

function range_slices :: "nat \<Rightarrow> nat \<Rightarrow> 'a list \<Rightarrow> 'a list list" where
  "range_slices step i w =
     (if step = 0 \<or> length w \<le> i then []
      else take step (drop i w) # range_slices step (i + step) w)"
  by pat_completeness auto
termination
  by (relation "measure (\<lambda>(step, i, w). length w - i)") auto

declare range_slices.simps [simp del]

definition hard_split :: "int \<Rightarrow> string list \<Rightarrow> py_error + string list" where
  "hard_split max_words w =
     (if max_words = 0 then Inl ValueError
      else if max_words < 0 then Inr []
      else Inr (map (join '' '') (range_slices (nat max_words) 0 w)))"

text \<open>One iteration of \<open>for s in sentences\<close>.\<close>

definition sentence_step :: "int \<Rightarrow> chunker \<Rightarrow> string \<Rightarrow> py_error + chunker" where
  "sentence_step max_words st s =
     (let w = py_split s in
      if w = [] then Inr st
      else if int (length w) > max_words then
        (case hard_split max_words w of
           Inl e \<Rightarrow> Inl e
         | Inr frags \<Rightarrow> Inr ((flush st)\<lparr>chunks := chunks (flush st) @ frags\<rparr>))
      else if cur_words st + int (length w) \<le> max_words then
        Inr (st\<lparr>cur := cur st @ [s], cur_words := cur_words st + int (length w)\<rparr>)
      else Inr ((flush st)\<lparr>cur := [s], cur_words := int (length w)\<rparr>))"

fun sentence_loop :: "int \<Rightarrow> chunker \<Rightarrow> string list \<Rightarrow> py_error + chunker" where
  "sentence_loop max_words st [] = Inr st"
| "sentence_loop max_words st (s # ss) =
     (case sentence_step max_words st s of
        Inl e \<Rightarrow> Inl e
      | Inr st' \<Rightarrow> sentence_loop max_words st' ss)"

definition init_chunker :: chunker where
  "init_chunker = \<lparr>chunks = [], cur = [], cur_words = 0\<rparr>"

definition split_into_sentence_chunks :: "string \<Rightarrow> int \<Rightarrow> py_error + string list" where
  "split_into_sentence_chunks text max_words =
     (if text = [] then Inr []
      else
        let t = collapse_ws (strip text);
            sentences = re_split_sentences False [] t
        in case sentence_loop max_words init_chunker sentences of
             Inl e \<Rightarrow> Inl e
           | Inr st \<Rightarrow> Inr (chunks (flush st)))"

text \<open>A word: a non-empty string with no white space in it.\<close>

definition is_word :: "string \<Rightarrow> bool" where
  "is_word x = (x \<noteq> [] \<and> list_all (\<lambda>c. \<not> isspace c) x)"

text \<open>The words held by a state of the loop: those of the finished chunks, then those of
  the sentences waiting in the accumulator.\<close>

definition words_of :: "chunker \<Rightarrow> string list" where
  "words_of st = concat (map py_split (chunks st)) @ concat (map py_split (cur st))"

text \<open>
  The invariant of the loop: \<open>cur_words\<close> is the number of words waiting in the
  accumulator and is within the budget, every waiting sentence has a word, and every
  finished chunk has between one and \<open>max_words\<close> words.
\<close>

definition chunk_inv :: "int \<Rightarrow> chunker \<Rightarrow> bool" where
  "chunk_inv max_words st =
     (cur_words st = int (length (concat (map py_split (cur st)))) \<and>
      cur_words st \<le> max_words \<and>
      list_all (\<lambda>s. py_split s \<noteq> []) (cur st) \<and>
      list_all (\<lambda>c. py_split c \<noteq> [] \<and> int (length (py_split c)) \<le> max_words) (chunks st))"

section \<open>The generation gateway (llm_interface.py)\<close>

text \<open>
  The backend object \<open>self._llm\<close> is not part of the repository and its answer to a
  prompt is not a function of the prompt (it samples). A \<open>backend_outcome\<close> is what
  one call of it does: it returns a result whose text is \<open>out["choices"][0]["text"]\<close>,
  or an \<open>Exception\<close> is raised inside the \<open>try\<close> block (by the call, or by reading a
  malformed result). Exceptions that are not an \<open>Exception\<close> (an interrupt, an exit)
  are outside the model.

  \<open>sample seed xs\<close> stands for \<open>random.seed(seed); random.sample(xs, k=len(xs))\<close>. The
  generator belongs to the Python library, so it is a parameter here; what the library
  promises about it (the result is a permutation of \<open>xs\<close>) is a hypothesis where it is
  needed. \<open>choice\<close> is the number \<open>random.choice\<close> draws to index its argument.
\<close>

datatype backend_outcome = Returned string | Raised

definition samples :: "string list" where
  "samples =
     [''The mind wanders like a loose thread, catching on unrelated memories until a small story forms.'',
      ''I trace the edges of an idea and find it mirrors the ordinary: a kettle, a key, a cat in a sunbeam.'',
      ''Between cause and effect there is a hallway of choices; today I walk it slowly, counting the doors.'']"

definition dummy_generate :: "(nat \<Rightarrow> string list \<Rightarrow> string list) \<Rightarrow> string \<Rightarrow> string" where
  "dummy_generate sample prompt =
     (let seed = sum_list (map of_char prompt) mod 1000
      in join [CHR 0x0A, CHR 0x0A] (sample seed samples))"

definition generate ::
  "(nat \<Rightarrow> string list \<Rightarrow> string list) \<Rightarrow> bool \<Rightarrow> backend_outcome \<Rightarrow> string \<Rightarrow> int \<Rightarrow> string" where
  "generate sample available outcome prompt max_tokens =
     (if \<not> available then dummy_generate sample prompt
      else case outcome of
             Returned out_text \<Rightarrow> strip out_text
           | Raised \<Rightarrow> dummy_generate sample prompt)"

definition topic_prompt :: string where
  "topic_prompt =
     ''You are a random topic generator. Return ONE short topic only (3-6 words), '' @
     ''no punctuation, no quotes. Example: amusement parks'' @ [CHR 0x0A] @ ''Topic:''"

definition default_topics :: "string list" where
  "default_topics = [''amusement parks'', ''rainy sidewalks'', ''old libraries'', ''lost satellites'']"

definition generate_topic ::
  "(nat \<Rightarrow> string list \<Rightarrow> string list) \<Rightarrow> nat \<Rightarrow> bool \<Rightarrow> backend_outcome \<Rightarrow> string" where
  "generate_topic sample choice available outcome =
     (let raw = generate sample available outcome topic_prompt 24;
          line = strip (collapse_ws raw);
          line = filter (\<lambda>c. isword c \<or> isspace c \<or> c = CHR ''-'') line
      in if line \<noteq> [] then take 64 line
         else default_topics ! (choice mod length default_topics))"

text \<open>A generator for examples: the permutation that reverses the list.\<close>

definition sample_reversed :: "nat \<Rightarrow> string list \<Rightarrow> string list" where
  "sample_reversed seed xs = rev xs"

text \<open>
  What the specification says of a topic: non-empty, white space collapsed (unchanged by
  \<open>re.sub(r"\s+", " ", t)\<close>), at most 64 characters, and made of alphanumeric
  characters, white space and hyphens only.
\<close>

definition topic_as_claimed :: "string \<Rightarrow> bool" where
  "topic_as_claimed t =
     (t \<noteq> [] \<and> collapse_ws t = t \<and> length t \<le> 64 \<and>
      list_all (\<lambda>c. isalnum c \<or> isspace c \<or> c = CHR ''-'') t)"

section \<open>The controller (main.py)\<close>

text \<open>\<open>xs[i]\<close> on a list: a negative index counts from the end, an index out of range
  raises.\<close>

definition py_index :: "'a list \<Rightarrow> int \<Rightarrow> py_error + 'a" where
  "py_index xs i =
     (if 0 \<le> i \<and> i < int (length xs) then Inr (xs ! nat i)
      else if - int (length xs) \<le> i \<and> i < 0 then Inr (xs ! nat (int (length xs) + i))
      else Inl IndexError)"

text \<open>
  \<open>os.path.join(a, b)\<close> for two components, with the separator \<open>/\<close>. A persona and the
  configuration are dictionaries read with \<open>.get(key, default)\<close>: a record of optional
  fields, \<open>None\<close> where the key is absent. The status texts are formatted strings with
  characters beyond code point 255; they are kept as the constructors of \<open>status\<close>, with
  the values that are formatted in.

  The controller's state holds its three attributes, and what it does to its
  collaborators: \<open>ui_calls\<close> are the calls on the renderer and \<open>worker_calls\<close> the calls
  on the worker, in order. \<open>path_exists\<close> is \<open>os.path.exists\<close>. \<open>visited\<close> is an
  observation added to the state: the values of \<open>_idx\<close> at which
  \<open>self.persona_states[self._idx]\<close> has been read. \<open>shuffle\<close> is the result of
  \<open>random.shuffle\<close> on the list. The handler of generated text is not called in a run
  where every call is answered by the error signal, and is not modelled.
\<close>

definition os_path_join :: "string \<Rightarrow> string \<Rightarrow> string" where
  "os_path_join a b =
     (if b \<noteq> [] \<and> hd b = CHR ''/'' then b
      else if a = [] \<or> last a = CHR ''/'' then a @ b
      else a @ ''/'' @ b)"

record balloon =
  x_pos :: "int option"
  y_pos :: "int option"
  width :: "int option"
  height :: "int option"

record persona =
  name :: "string option"
  display_name :: "string option"
  image_file_name :: "string option"
  speech_balloon :: "balloon option"

record persona_state =
  ps_persona :: persona
  ps_topic :: string
  ps_text :: string

record config =
  personalities :: "persona list option"
  num_characters :: "int option"

datatype awaiting = Topic | Text

datatype status =
    App_started
  | All_personas_complete
  | Persona_choosing_topic string
  | Persona_finished
  | Error_status string

datatype ui_call =
    Set_background "string option"
  | Set_balloon_rect_design int int int int
  | Show_status status

datatype worker_call = Gen_topic | Generate string int

record controller =
  persona_states :: "persona_state list"
  idx :: int
  awaiting :: "awaiting option"
  path_exists :: "string \<Rightarrow> bool"
  ui_calls :: "ui_call list"
  worker_calls :: "worker_call list"
  visited :: "int list"

definition new_controller :: "(string \<Rightarrow> bool) \<Rightarrow> controller" where
  "new_controller exists =
     \<lparr>persona_states = [], idx = - 1, awaiting = None, path_exists = exists,
      ui_calls = [], worker_calls = [], visited = []\<rparr>"

definition existing :: "controller \<Rightarrow> string \<Rightarrow> string option" where
  "existing c path = (if path_exists c path then Some path else None)"

definition prepare_personas ::
  "(persona list \<Rightarrow> persona list) \<Rightarrow> config \<Rightarrow> controller \<Rightarrow> controller" where
  "prepare_personas shuffle cfg c =
     (let plist = shuffle (case personalities cfg of None \<Rightarrow> [] | Some ps \<Rightarrow> ps);
          n = (case num_characters cfg of None \<Rightarrow> 1 | Some k \<Rightarrow> k);
          plist = take (nat (max 1 n)) plist
      in c\<lparr>persona_states := map (\<lambda>p. \<lparr>ps_persona = p, ps_topic = [], ps_text = []\<rparr>) plist\<rparr>)"

definition next_persona :: "controller \<Rightarrow> py_error + controller" where
  "next_persona c0 =
     (let c = c0\<lparr>idx := idx c0 + 1\<rparr> in
      if idx c \<ge> int (length (persona_states c)) then
        Inr (c\<lparr>ui_calls := ui_calls c @ [Show_status All_personas_complete]\<rparr>)
      else
        case py_index (persona_states c) (idx c) of
          Inl e \<Rightarrow> Inl e
        | Inr st \<Rightarrow>
            let p = ps_persona st;
                img = os_path_join ''assets'' (case image_file_name p of None \<Rightarrow> [] | Some f \<Rightarrow> f);
                rect = (case speech_balloon p of
                          None \<Rightarrow> \<lparr>x_pos = Some 80, y_pos = Some 80, width = Some 864, height = Some 560\<rparr>
                        | Some r \<Rightarrow> r);
                shown = (case display_name p of
                           Some d \<Rightarrow> d
                         | None \<Rightarrow> (case name p of Some n \<Rightarrow> n | None \<Rightarrow> ''?''))
            in Inr (c\<lparr>ui_calls := ui_calls c @
                        [Set_background (existing c img),
                         Set_balloon_rect_design
                           (case x_pos rect of None \<Rightarrow> 80 | Some v \<Rightarrow> v)
                           (case y_pos rect of None \<Rightarrow> 80 | Some v \<Rightarrow> v)
                           (case width rect of None \<Rightarrow> 864 | Some v \<Rightarrow> v)
                           (case height rect of None \<Rightarrow> 560 | Some v \<Rightarrow> v),
                         Show_status (Persona_choosing_topic shown)],
                      visited := visited c @ [idx c],
                      awaiting := Some Topic,
                      worker_calls := worker_calls c @ [Gen_topic]\<rparr>))"

definition start ::
  "(persona list \<Rightarrow> persona list) \<Rightarrow> config \<Rightarrow> controller \<Rightarrow> py_error + controller" where
  "start shuffle cfg c =
     (let startup_img = os_path_join ''assets'' ''startup.jpg'';
          c = c\<lparr>ui_calls := ui_calls c @
                 [Set_background (existing c startup_img), Show_status App_started]\<rparr>
      in next_persona (prepare_personas shuffle cfg c))"

definition on_chunk_finished :: "controller \<Rightarrow> py_error + controller" where
  "on_chunk_finished c =
     next_persona (c\<lparr>ui_calls := ui_calls c @ [Show_status Persona_finished]\<rparr>)"

definition on_worker_error :: "controller \<Rightarrow> string \<Rightarrow> py_error + controller" where
  "on_worker_error c msg =
     next_persona (c\<lparr>ui_calls := ui_calls c @ [Show_status (Error_status msg)]\<rparr>)"

text \<open>
  A run in which the worker answers every call made on it with the error signal:
  \<open>answered\<close> counts the calls answered so far, and the run ends when no call is left
  unanswered.
\<close>

function run_all_errors :: "string \<Rightarrow> nat \<Rightarrow> controller \<Rightarrow> py_error + controller" where
  "run_all_errors msg answered c =
     (if answered < length (worker_calls c) then
        (case on_worker_error c msg of
           Inl e \<Rightarrow> Inl e
         | Inr c' \<Rightarrow> run_all_errors msg (Suc answered) c')
      else Inr c)"
  by pat_completeness auto
termination
proof (relation "measure (\<lambda>(msg, answered, c).
    (length (worker_calls c) - answered) + nat (int (length (persona_states c)) - idx c - 1))")
  show "wf (measure (\<lambda>(msg, answered, c).
    (length (worker_calls c) - answered) + nat (int (length (persona_states c)) - idx c - 1)))"
    by simp
next
  fix msg :: string and answered c c'
  assume a: "answered < length (worker_calls c)" and e: "on_worker_error c msg = Inr c'"
  from e have "persona_states c' = persona_states c \<and> idx c' = idx c + 1 \<and>
    worker_calls c' =
      worker_calls c @ (if idx c + 1 < int (length (persona_states c)) then [Gen_topic] else [])"
    by (auto simp: on_worker_error_def next_persona_def Let_def split: if_splits sum.splits)
  with a show "((msg, Suc answered, c'), (msg, answered, c)) \<in> measure (\<lambda>(msg, answered, c).
    (length (worker_calls c) - answered) + nat (int (length (persona_states c)) - idx c - 1))"
    by (auto split: if_splits)
qed

declare run_all_errors.simps [simp del]

fun is_error_status :: "ui_call \<Rightarrow> bool" where
  "is_error_status (Show_status (Error_status msg)) = True"
| "is_error_status call = False"

text \<open>A file system and a configuration for examples.\<close>

definition no_files :: "string \<Rightarrow> bool" where
  "no_files path = False"

definition demo_persona :: "string \<Rightarrow> persona" where
  "demo_persona n = \<lparr>name = Some n, display_name = None, image_file_name = None, speech_balloon = None\<rparr>"

definition demo_config :: config where
  "demo_config = \<lparr>personalities = Some [demo_persona ''ann'', demo_persona ''bob'', demo_persona ''cy''],
                  num_characters = Some 2\<rparr>"

section \<open>The playback engine (ui_renderer.py)\<close>

text \<open>
  The renderer's state holds the attributes that \<open>play_chunks\<close> and \<open>_show_next_chunk\<close>
  use, and \<open>ui_effects\<close>, the calls they make on the widgets, the animations and the
  timer, in order. A \<open>slot\<close> is a callable handed to a signal or to the timer:
  \<open>Swap t\<close> and \<open>Hold_then_fade\<close> are the two closures of \<open>_show_next_chunk\<close> (the
  first one with the text it captured). \<open>Balloon_setHtml_wrapped t\<close> is
  \<open>self.balloon.setHtml(self._wrap_html(t))\<close>. The argument \<open>chunks\<close> may be \<open>None\<close>, as
  \<open>duration_s\<close> may.
\<close>

datatype slot = Emit_chunkPlaybackFinished | Hold_then_fade | Swap string

datatype ui_effect =
    Balloon_setText string
  | Balloon_setHtml_wrapped string
  | Center_text_vertically
  | Opacity_setOpacity_zero
  | Connect_fade_in_finished slot
  | Connect_fade_out_finished slot
  | Fade_in_start
  | Fade_out_start
  | Timer_singleShot int slot
  | Emit_chunkPlaybackFinished_now

record ui_renderer =
  chunk_duration_s :: int
  ui_chunks :: "string list"
  chunk_idx :: int
  chunk_duration_ms :: int
  ui_effects :: "ui_effect list"

definition show_next_chunk :: "bool \<Rightarrow> ui_renderer \<Rightarrow> py_error + ui_renderer" where
  "show_next_chunk initial u0 =
     (let u = u0\<lparr>chunk_idx := chunk_idx u0 + 1\<rparr> in
      if chunk_idx u \<ge> int (length (ui_chunks u)) then
        Inr (u\<lparr>ui_effects := ui_effects u @ [Emit_chunkPlaybackFinished_now]\<rparr>)
      else
        case py_index (ui_chunks u) (chunk_idx u) of
          Inl e \<Rightarrow> Inl e
        | Inr chunk_text \<Rightarrow>
            if initial then
              Inr (u\<lparr>ui_effects := ui_effects u @
                     [Opacity_setOpacity_zero, Balloon_setHtml_wrapped chunk_text,
                      Center_text_vertically, Connect_fade_in_finished Hold_then_fade,
                      Fade_in_start]\<rparr>)
            else
              Inr (u\<lparr>ui_effects := ui_effects u @
                     [Connect_fade_out_finished (Swap chunk_text), Fade_out_start]\<rparr>))"

definition play_chunks ::
  "ui_renderer \<Rightarrow> string list option \<Rightarrow> int option \<Rightarrow> py_error + ui_renderer" where
  "play_chunks u0 chunks_arg duration_s =
     (let u = u0\<lparr>ui_chunks := (case chunks_arg of None \<Rightarrow> [] | Some cs \<Rightarrow> cs), chunk_idx := - 1\<rparr>;
          d = (case duration_s of None \<Rightarrow> chunk_duration_s u | Some d \<Rightarrow> d);
          u = u\<lparr>chunk_duration_ms := max 1000 (d * 1000)\<rparr>
      in if ui_chunks u = [] then
           Inr (u\<lparr>ui_effects := ui_effects u @
                  [Balloon_setText [], Timer_singleShot 300 Emit_chunkPlaybackFinished]\<rparr>)
         else show_next_chunk True u)"

fun starts_fade :: "ui_effect \<Rightarrow> bool" where
  "starts_fade Fade_in_start = True"
| "starts_fade Fade_out_start = True"
| "starts_fade e = False"

section \<open>Properties of the string operations\<close>

lemma py_split_aux_space:
  "isspace c \<Longrightarrow> py_split_aux w (a @ c # b) = py_split_aux w a @ py_split_aux [] b"
  by (induction a arbitrary: w) auto

lemma py_split_aux_nospace:
  "list_all (\<lambda>c. \<not> isspace c) x \<Longrightarrow> py_split_aux w x = (if w @ x = [] then [] else [w @ x])"
  by (induction x arbitrary: w) auto

lemma py_split_aux_words:
  "list_all (\<lambda>c. \<not> isspace c) w \<Longrightarrow> list_all is_word (py_split_aux w s)"
  by (induction s arbitrary: w) (auto simp: is_word_def)

lemma py_split_words: "list_all is_word (py_split s)"
  by (simp add: py_split_def py_split_aux_words)

lemma py_split_word: "is_word x \<Longrightarrow> py_split x = [x]"
  by (simp add: py_split_def is_word_def py_split_aux_nospace)

lemma py_split_append_space:
  "isspace c \<Longrightarrow> py_split (a @ c # b) = py_split a @ py_split b"
  by (simp add: py_split_def py_split_aux_space)

lemma isspace_space: "isspace (CHR '' '')"
  by (simp add: isspace_def)

lemma py_split_Nil: "py_split [] = []"
  by (simp add: py_split_def)

lemma py_split_join: "py_split (join '' '' xs) = concat (map py_split xs)"
proof (induction xs)
  case Nil
  show ?case by (simp add: py_split_Nil)
next
  case (Cons x xs)
  show ?case
  proof (cases xs)
    case Nil
    then show ?thesis by simp
  next
    case (Cons y ys)
    have "py_split (x @ CHR '' '' # join '' '' (y # ys)) = py_split x @ py_split (join '' '' (y # ys))"
      by (rule py_split_append_space [OF isspace_space])
    with Cons Cons.IH show ?thesis by simp
  qed
qed

lemma py_split_join_words: "list_all is_word ws \<Longrightarrow> py_split (join '' '' ws) = ws"
  by (induction ws) (simp_all add: py_split_join py_split_word py_split_Nil)

lemma py_split_aux_all_space:
  "list_all isspace ws \<Longrightarrow> py_split_aux w ws = (if w = [] then [] else [w])"
  by (induction ws arbitrary: w) auto

lemma py_split_aux_trailing:
  "list_all isspace ws \<Longrightarrow> py_split_aux w (s @ ws) = py_split_aux w s"
  by (induction s arbitrary: w) (auto simp: py_split_aux_all_space)

lemma py_split_aux_leading:
  "py_split_aux [] (dropWhile isspace s) = py_split_aux [] s"
  by (induction s) auto

lemma rstrip_decomp:
  "rev (dropWhile isspace (rev s)) @ rev (takeWhile isspace (rev s)) = s"
proof -
  have "rev (takeWhile isspace (rev s) @ dropWhile isspace (rev s)) = rev (rev s)"
    by (simp only: takeWhile_dropWhile_id)
  then show ?thesis by (simp only: rev_append rev_rev_ident)
qed

lemma py_split_rstrip: "py_split (rev (dropWhile isspace (rev s))) = py_split s"
proof -
  have ws: "list_all isspace (rev (takeWhile isspace (rev s)))"
    by (simp add: list_all_iff) (meson set_takeWhileD)
  have "py_split s = py_split (rev (dropWhile isspace (rev s)) @ rev (takeWhile isspace (rev s)))"
    by (simp only: rstrip_decomp)
  also have "\<dots> = py_split (rev (dropWhile isspace (rev s)))"
    unfolding py_split_def by (rule py_split_aux_trailing [OF ws])
  finally show ?thesis by simp
qed

lemma py_split_strip: "py_split (strip s) = py_split s"
  unfolding strip_def by (simp add: py_split_rstrip) (simp add: py_split_def py_split_aux_leading)

lemma py_split_aux_collapse: "py_split_aux w (collapse_ws s) = py_split_aux w s"
proof (induction s arbitrary: w rule: collapse_ws.induct)
  case 1
  show ?case by simp
next
  case (2 c cs)
  show ?case
  proof (cases "isspace c")
    case True
    with 2 show ?thesis by (simp add: isspace_space py_split_aux_leading)
  next
    case False
    with 2 show ?thesis by simp
  qed
qed

lemma py_split_collapse: "py_split (collapse_ws s) = py_split s"
  by (simp add: py_split_def py_split_aux_collapse)

lemma re_split_words:
  "concat (map py_split (re_split_sentences lb piece cs)) = py_split (piece @ cs)"
proof (induction lb piece cs rule: re_split_sentences.induct)
  case (1 lb piece)
  show ?case by simp
next
  case (2 lb piece c cs)
  show ?case
  proof (cases "lb \<and> isspace c")
    case True
    then have "concat (map py_split (re_split_sentences lb piece (c # cs)))
        = py_split piece @ py_split (dropWhile isspace cs)"
      using 2 by simp
    also have "\<dots> = py_split piece @ py_split cs"
      by (simp add: py_split_def py_split_aux_leading)
    also have "\<dots> = py_split (piece @ c # cs)"
      using True by (simp add: py_split_append_space)
    finally show ?thesis .
  next
    case False
    with 2 show ?thesis by auto
  qed
qed

section \<open>Properties of the slicing loop\<close>

lemma concat_range_slices: "0 < m \<Longrightarrow> concat (range_slices m i w) = drop i w"
proof (induction m i w rule: range_slices.induct)
  case (1 step i w)
  show ?case
  proof (cases "length w \<le> i")
    case True
    then show ?thesis by (simp add: range_slices.simps)
  next
    case False
    have ih: "concat (range_slices step (i + step) w) = drop (i + step) w"
      using 1 False by simp
    have "concat (range_slices step i w) = take step (drop i w) @ drop (i + step) w"
      using False 1(2) ih by (simp add: range_slices.simps [of step i w])
    also have "drop (i + step) w = drop step (drop i w)"
      by (simp add: add.commute)
    also have "take step (drop i w) @ drop step (drop i w) = drop i w"
      by (rule append_take_drop_id)
    finally show ?thesis .
  qed
qed

lemma range_slices_elems:
  "0 < m \<Longrightarrow> x \<in> set (range_slices m i w) \<Longrightarrow> x \<noteq> [] \<and> length x \<le> m \<and> set x \<subseteq> set w"
proof (induction m i w rule: range_slices.induct)
  case (1 step i w)
  show ?case
  proof (cases "length w \<le> i")
    case True
    with 1 show ?thesis by (simp add: range_slices.simps)
  next
    case False
    from 1(3) False 1(2) have "x = take step (drop i w) \<or> x \<in> set (range_slices step (i + step) w)"
      by (simp add: range_slices.simps [of step i w])
    then show ?thesis
    proof
      assume x: "x = take step (drop i w)"
      have "set (take step (drop i w)) \<subseteq> set w"
        by (meson set_take_subset set_drop_subset subset_trans)
      with x False 1(2) show ?thesis by simp
    next
      assume "x \<in> set (range_slices step (i + step) w)"
      with 1 False show ?thesis by simp
    qed
  qed
qed

lemma ceil_div_step:
  fixes n s :: nat
  assumes "0 < s" "0 < n"
  shows "(n + s - 1) div s = Suc ((n - s + s - 1) div s)"
proof (cases "s \<le> n")
  case True
  define k where "k = n - s + s - 1"
  from True assms have "n + s - 1 = k + s" unfolding k_def by arith
  then have "(n + s - 1) div s = (k + s) div s" by simp
  also have "\<dots> = k div s + 1" by (rule div_add_self2) (use assms in simp)
  finally show ?thesis unfolding k_def by simp
next
  case False
  then have z: "(n - s + s - 1) div s = 0" using assms by simp
  have "(n + s - 1) div s = 1"
    by (rule div_nat_eqI) (use False assms in arith)+
  with z show ?thesis by simp
qed

lemma length_range_slices:
  "0 < m \<Longrightarrow> length (range_slices m i w) = (length w - i + m - 1) div m"
proof (induction m i w rule: range_slices.induct)
  case (1 step i w)
  show ?case
  proof (cases "length w \<le> i")
    case True
    with 1(2) show ?thesis by (simp add: range_slices.simps)
  next
    case False
    have "length (range_slices step i w) = Suc ((length w - (i + step) + step - 1) div step)"
      using 1 False by (simp add: range_slices.simps [of step i w])
    also have "length w - (i + step) = length w - i - step" by simp
    also have "Suc ((length w - i - step + step - 1) div step) = (length w - i + step - 1) div step"
      using ceil_div_step [of step "length w - i"] False 1(2) by simp
    finally show ?thesis .
  qed
qed

lemma nth_range_slices:
  "0 < m \<Longrightarrow> j < length (range_slices m i w) \<Longrightarrow>
     range_slices m i w ! j = take m (drop (i + j * m) w)"
proof (induction m i w arbitrary: j rule: range_slices.induct)
  case (1 step i w)
  show ?case
  proof (cases "length w \<le> i")
    case True
    with 1(3) show ?thesis by (simp add: range_slices.simps)
  next
    case False
    note unf = range_slices.simps [of step i w]
    show ?thesis
    proof (cases j)
      case 0
      with False 1(2) show ?thesis by (simp add: unf)
    next
      case (Suc j')
      with 1(3) False 1(2) have "j' < length (range_slices step (i + step) w)"
        by (simp add: unf)
      with 1(1) [of j'] False 1(2)
      have "range_slices step (i + step) w ! j' = take step (drop (i + step + j' * step) w)"
        by simp
      with Suc False 1(2) show ?thesis by (simp add: unf add.assoc)
    qed
  qed
qed

section \<open>Properties of the chunker loop\<close>

lemma py_split_flushed: "py_split (strip (join '' '' xs)) = concat (map py_split xs)"
  by (simp add: py_split_strip py_split_join)

lemma flush_words: "words_of (flush st) = words_of st"
  by (simp add: flush_def words_of_def py_split_flushed)

lemma cur_flush: "cur (flush st) = []"
  by (simp add: flush_def)

lemma hard_split_pos:
  "1 \<le> mw \<Longrightarrow> hard_split mw w = Inr (map (join '' '') (range_slices (nat mw) 0 w))"
  by (simp add: hard_split_def)

lemma slice_words:
  assumes "0 < m" "list_all is_word w" "x \<in> set (range_slices m i w)"
  shows "py_split (join '' '' x) = x"
proof -
  from range_slices_elems [OF assms(1,3)] have "set x \<subseteq> set w" by simp
  with assms(2) have "list_all is_word x" by (auto simp: list_all_iff)
  then show ?thesis by (rule py_split_join_words)
qed

lemma map_split_slices:
  assumes "0 < m" "list_all is_word w"
  shows "map py_split (map (join '' '') (range_slices m i w)) = range_slices m i w"
proof -
  have "map (\<lambda>x. py_split (join '' '' x)) (range_slices m i w) = map (\<lambda>x. x) (range_slices m i w)"
    by (rule map_cong [OF refl]) (rule slice_words [OF assms])
  then show ?thesis by (simp add: comp_def)
qed

lemma step_total: "1 \<le> mw \<Longrightarrow> \<exists>st'. sentence_step mw st s = Inr st'"
  by (simp add: sentence_step_def Let_def hard_split_pos)

lemma step_words:
  assumes "1 \<le> mw" "sentence_step mw st s = Inr st'"
  shows "words_of st' = words_of st @ py_split s"
proof -
  let ?w = "py_split s"
  consider (none) "?w = []" | (long) "?w \<noteq> []" "int (length ?w) > mw"
    | (fits) "?w \<noteq> []" "\<not> int (length ?w) > mw" "cur_words st + int (length ?w) \<le> mw"
    | (full) "?w \<noteq> []" "\<not> int (length ?w) > mw" "\<not> cur_words st + int (length ?w) \<le> mw"
    by blast
  then show ?thesis
  proof cases
    case none
    with assms show ?thesis by (simp add: sentence_step_def)
  next
    case long
    have m: "0 < nat mw" using assms(1) by simp
    have st': "st' = (flush st)\<lparr>chunks := chunks (flush st) @ map (join '' '') (range_slices (nat mw) 0 ?w)\<rparr>"
      using assms long by (simp add: sentence_step_def hard_split_pos)
    have "concat (map py_split (map (join '' '') (range_slices (nat mw) 0 ?w))) = ?w"
      using map_split_slices [OF m py_split_words, of 0 s] concat_range_slices [OF m, of 0 ?w]
      by simp
    then have "words_of st' = words_of (flush st) @ ?w"
      unfolding st' by (simp add: words_of_def cur_flush)
    then show ?thesis by (simp add: flush_words)
  next
    case fits
    with assms show ?thesis by (auto simp: sentence_step_def words_of_def)
  next
    case full
    with assms have "st' = (flush st)\<lparr>cur := [s], cur_words := int (length ?w)\<rparr>"
      by (simp add: sentence_step_def)
    then have "words_of st' = words_of (flush st) @ ?w"
      by (simp add: words_of_def cur_flush)
    then show ?thesis by (simp add: flush_words)
  qed
qed

lemma loop_words:
  "1 \<le> mw \<Longrightarrow> \<exists>st'. sentence_loop mw st ss = Inr st' \<and>
     words_of st' = words_of st @ concat (map py_split ss)"
proof (induction ss arbitrary: st)
  case Nil
  show ?case by simp
next
  case (Cons s ss)
  from step_total [OF Cons.prems] obtain st1 where s1: "sentence_step mw st s = Inr st1" by blast
  from Cons.IH [OF Cons.prems, of st1] obtain st' where
    l: "sentence_loop mw st1 ss = Inr st'" "words_of st' = words_of st1 @ concat (map py_split ss)"
    by blast
  from s1 l step_words [OF Cons.prems s1] show ?case by simp
qed

lemma strip_Nil: "strip [] = []"
  by (simp add: strip_def)

lemma chunk_inv_init: "0 \<le> mw \<Longrightarrow> chunk_inv mw init_chunker"
  by (simp add: chunk_inv_def init_chunker_def)

lemma concat_split_nonempty:
  "xs \<noteq> [] \<Longrightarrow> list_all (\<lambda>s. py_split s \<noteq> []) xs \<Longrightarrow> concat (map py_split xs) \<noteq> []"
  by (cases xs) auto

lemma chunk_inv_flush:
  assumes "0 \<le> mw" "chunk_inv mw st"
  shows "chunk_inv mw (flush st)"
proof (cases "cur st = []")
  case True
  with assms show ?thesis by (simp add: flush_def)
next
  case False
  from assms(2) have "list_all (\<lambda>s. py_split s \<noteq> []) (cur st)"
    by (simp add: chunk_inv_def)
  from concat_split_nonempty [OF False this] have "concat (map py_split (cur st)) \<noteq> []" .
  with assms False show ?thesis
    by (simp add: flush_def chunk_inv_def py_split_flushed)
qed

lemma frags_bounded:
  assumes "1 \<le> mw"
  shows "list_all (\<lambda>c. py_split c \<noteq> [] \<and> int (length (py_split c)) \<le> mw)
           (map (join '' '') (range_slices (nat mw) 0 (py_split s)))"
proof -
  have m: "0 < nat mw" using assms by simp
  {
    fix x assume x: "x \<in> set (range_slices (nat mw) 0 (py_split s))"
    from slice_words [OF m py_split_words x] have "py_split (join '' '' x) = x" .
    moreover from range_slices_elems [OF m x] have "x \<noteq> []" "length x \<le> nat mw" by simp_all
    ultimately have "py_split (join '' '' x) \<noteq> [] \<and> int (length (py_split (join '' '' x))) \<le> mw"
      using assms by simp
  }
  then show ?thesis by (simp add: list_all_iff)
qed

lemma chunk_inv_step:
  assumes "1 \<le> mw" "chunk_inv mw st" "sentence_step mw st s = Inr st'"
  shows "chunk_inv mw st'"
proof -
  let ?w = "py_split s"
  have mw0: "0 \<le> mw" using assms(1) by simp
  note fl = chunk_inv_flush [OF mw0 assms(2)]
  consider (none) "?w = []" | (long) "?w \<noteq> []" "int (length ?w) > mw"
    | (fits) "?w \<noteq> []" "\<not> int (length ?w) > mw" "cur_words st + int (length ?w) \<le> mw"
    | (full) "?w \<noteq> []" "\<not> int (length ?w) > mw" "\<not> cur_words st + int (length ?w) \<le> mw"
    by blast
  then show ?thesis
  proof cases
    case none
    with assms show ?thesis by (simp add: sentence_step_def)
  next
    case long
    have st': "st' = (flush st)\<lparr>chunks := chunks (flush st) @ map (join '' '') (range_slices (nat mw) 0 ?w)\<rparr>"
      using assms long by (simp add: sentence_step_def hard_split_pos)
    show ?thesis unfolding st' using fl frags_bounded [OF assms(1), of s]
      by (simp add: chunk_inv_def)
  next
    case fits
    with assms show ?thesis by (auto simp: sentence_step_def chunk_inv_def)
  next
    case full
    with assms have "st' = (flush st)\<lparr>cur := [s], cur_words := int (length ?w)\<rparr>"
      by (simp add: sentence_step_def)
    with fl full show ?thesis by (simp add: chunk_inv_def cur_flush)
  qed
qed

lemma chunk_inv_loop:
  "1 \<le> mw \<Longrightarrow> chunk_inv mw st \<Longrightarrow> sentence_loop mw st ss = Inr st' \<Longrightarrow> chunk_inv mw st'"
proof (induction ss arbitrary: st)
  case Nil
  then show ?case by simp
next
  case (Cons s ss)
  from step_total [OF Cons.prems(1)] obtain st1 where s1: "sentence_step mw st s = Inr st1" by blast
  with Cons.prems(3) have "sentence_loop mw st1 ss = Inr st'" by simp
  with Cons.IH [OF Cons.prems(1) chunk_inv_step [OF Cons.prems(1,2) s1]] show ?case by simp
qed

lemma loop_total: "1 \<le> mw \<Longrightarrow> \<exists>st'. sentence_loop mw st ss = Inr st'"
  using loop_words by blast

lemma chunker_result:
  assumes "1 \<le> mw"
  shows "\<exists>cs. split_into_sentence_chunks text mw = Inr cs \<and>
           list_all (\<lambda>c. py_split c \<noteq> [] \<and> int (length (py_split c)) \<le> mw) cs"
proof (cases "text = []")
  case True
  then show ?thesis by (simp add: split_into_sentence_chunks_def)
next
  case False
  let ?ss = "re_split_sentences False [] (collapse_ws (strip text))"
  from loop_total [OF assms] obtain st where st: "sentence_loop mw init_chunker ?ss = Inr st" by blast
  have mw0: "0 \<le> mw" using assms by simp
  have "chunk_inv mw (flush st)"
    by (rule chunk_inv_flush [OF mw0 chunk_inv_loop [OF assms chunk_inv_init [OF mw0] st]])
  then have "list_all (\<lambda>c. py_split c \<noteq> [] \<and> int (length (py_split c)) \<le> mw) (chunks (flush st))"
    by (simp add: chunk_inv_def)
  with False st show ?thesis by (simp add: split_into_sentence_chunks_def)
qed

lemma strip_blank:
  assumes "list_all isspace t"
  shows "strip t = []"
proof -
  from assms have d: "dropWhile isspace t = []" by (simp add: list_all_iff)
  show ?thesis unfolding strip_def d by simp
qed

lemma flush_chunks:
  "chunks (flush st) = chunks st @ (if cur st = [] then [] else [strip (join '' '' (cur st))])"
  by (simp add: flush_def)

lemma step_chunks_grow:
  "sentence_step mw st s = Inr st' \<Longrightarrow> \<exists>new. chunks st' = chunks st @ new"
  by (auto simp: sentence_step_def Let_def flush_chunks split: if_splits sum.splits)

lemma loop_chunks_grow:
  "sentence_loop mw st ss = Inr st' \<Longrightarrow> \<exists>new. chunks st' = chunks st @ new"
proof (induction ss arbitrary: st)
  case Nil
  then show ?case by simp
next
  case (Cons s ss)
  from Cons.prems obtain st1 where s1: "sentence_step mw st s = Inr st1"
    and l: "sentence_loop mw st1 ss = Inr st'"
    by (auto split: sum.splits)
  from step_chunks_grow [OF s1] obtain a where a: "chunks st1 = chunks st @ a" by blast
  from Cons.IH [OF l] obtain b where "chunks st' = chunks st1 @ b" by blast
  with a show ?case by simp
qed

lemma ceil_div_last:
  fixes n m :: nat
  assumes "0 < m" "0 < n" "i < (n + m - 1) div m"
  shows "i * m < n"
proof -
  define k where "k = (n + m - 1) div m"
  have a: "k * m \<le> n + m - 1" unfolding k_def by (rule div_times_less_eq_dividend)
  from assms(3) have "i + 1 \<le> k" by (simp add: k_def)
  then have b: "(i + 1) * m \<le> k * m" by (rule mult_le_mono1)
  from order_trans [OF b a] have "i * m + m \<le> n + m - 1" by simp
  with assms show ?thesis by arith
qed

lemma oversized_step:
  assumes "1 \<le> max_words" and "max_words < int (length (py_split s))"
  shows "\<exists>frags.
     sentence_step max_words st s = Inr ((flush st)\<lparr>chunks := chunks (flush st) @ frags\<rparr>) \<and>
     chunks (flush st) = chunks st @ (if cur st = [] then [] else [strip (join '' '' (cur st))]) \<and>
     cur (flush st) = [] \<and>
     length frags = (length (py_split s) + nat max_words - 1) div nat max_words \<and>
     (\<forall>i < length frags.
        py_split (frags ! i) = take (nat max_words) (drop (i * nat max_words) (py_split s)) \<and>
        (i + 1 < length frags \<longrightarrow> length (py_split (frags ! i)) = nat max_words) \<and>
        1 \<le> length (py_split (frags ! i)) \<and> length (py_split (frags ! i)) \<le> nat max_words) \<and>
     concat (map py_split frags) = py_split s \<and>
     (\<forall>ss st'. sentence_loop max_words ((flush st)\<lparr>chunks := chunks (flush st) @ frags\<rparr>) ss = Inr st'
        \<longrightarrow> take (length (chunks (flush st) @ frags)) (chunks st') = chunks (flush st) @ frags)"
proof -
  define m where "m = nat max_words"
  define w where "w = py_split s"
  define frags where "frags = map (join '' '') (range_slices m 0 w)"
  have m: "0 < m" using assms(1) by (simp add: m_def)
  have n1: "m < length w" using assms by (simp add: m_def w_def)
  then have n2: "0 < length w" by arith
  note n = n1 n2
  have wne: "w \<noteq> []" using n2 by auto
  have words: "list_all is_word w" unfolding w_def by (rule py_split_words)
  have pne: "py_split s \<noteq> []" using wne by (simp add: w_def)
  have step: "sentence_step max_words st s = Inr ((flush st)\<lparr>chunks := chunks (flush st) @ frags\<rparr>)"
    using assms pne by (simp add: sentence_step_def hard_split_pos frags_def m_def w_def)
  have len: "length frags = (length w + m - 1) div m"
    using length_range_slices [OF m, of 0 w] by (simp add: frags_def)
  have nth: "py_split (frags ! i) = take m (drop (i * m) w)" if "i < length frags" for i
  proof -
    from that have i: "i < length (range_slices m 0 w)" by (simp add: frags_def)
    then have "range_slices m 0 w ! i \<in> set (range_slices m 0 w)" by (rule nth_mem)
    from slice_words [OF m words this] i nth_range_slices [OF m i]
    show ?thesis by (simp add: frags_def)
  qed
  have full: "length (py_split (frags ! i)) = m" if "i + 1 < length frags" for i
  proof -
    from that have "i < length frags" by simp
    from that len have "(i + 1) * m < length w"
      by (intro ceil_div_last [OF m n(2)]) simp
    with nth [OF \<open>i < length frags\<close>] show ?thesis by simp
  qed
  have some: "1 \<le> length (py_split (frags ! i)) \<and> length (py_split (frags ! i)) \<le> m"
    if "i < length frags" for i
  proof -
    from that len have "i * m < length w"
      by (intro ceil_div_last [OF m n(2)]) simp
    with nth [OF that] m show ?thesis by simp
  qed
  have cc: "concat (map py_split frags) = w"
    using map_split_slices [OF m words, of 0] concat_range_slices [OF m, of 0 w]
    by (simp add: frags_def)
  have keep: "take (length (chunks (flush st) @ frags)) (chunks st') = chunks (flush st) @ frags"
    if "sentence_loop max_words ((flush st)\<lparr>chunks := chunks (flush st) @ frags\<rparr>) ss = Inr st'"
    for ss st'
  proof -
    from loop_chunks_grow [OF that] obtain new where
      "chunks st' = (chunks (flush st) @ frags) @ new" by auto
    then show ?thesis by simp
  qed
  show ?thesis
    apply (rule exI [of _ frags])
    using step len nth full some cc keep
    unfolding m_def [symmetric] w_def [symmetric]
    by (simp add: flush_chunks cur_flush)
qed

lemma loop_append:
  "sentence_loop mw st (xs @ ys) =
     (case sentence_loop mw st xs of Inl e \<Rightarrow> Inl e | Inr st' \<Rightarrow> sentence_loop mw st' ys)"
  by (induction xs arbitrary: st) (auto split: sum.splits)

lemma flush_shift:
  "flush (st\<lparr>chunks := p @ chunks st\<rparr>) = (flush st)\<lparr>chunks := p @ chunks (flush st)\<rparr>"
  by (simp add: flush_def)

lemma step_shift:
  assumes "sentence_step mw st s = Inr st'"
  shows "sentence_step mw (st\<lparr>chunks := p @ chunks st\<rparr>) s = Inr (st'\<lparr>chunks := p @ chunks st'\<rparr>)"
  using assms
  by (auto simp: sentence_step_def Let_def flush_shift split: if_splits sum.splits)

lemma loop_shift:
  "sentence_loop mw st ss = Inr st' \<Longrightarrow>
     sentence_loop mw (st\<lparr>chunks := p @ chunks st\<rparr>) ss = Inr (st'\<lparr>chunks := p @ chunks st'\<rparr>)"
proof (induction ss arbitrary: st)
  case Nil
  then show ?case by simp
next
  case (Cons s ss)
  from Cons.prems obtain st1 where s1: "sentence_step mw st s = Inr st1"
    and l: "sentence_loop mw st1 ss = Inr st'"
    by (auto split: sum.splits)
  from step_shift [OF s1, of p] Cons.IH [OF l] show ?case by simp
qed

lemma flush_cur_words: "chunk_inv mw st \<Longrightarrow> cur_words (flush st) = 0"
  by (auto simp: flush_def chunk_inv_def)

lemma py_split_aux_empty:
  "py_split_aux w s = [] \<Longrightarrow> w = [] \<and> list_all isspace s"
  by (induction s arbitrary: w) (auto split: if_splits)

lemma py_split_empty_iff: "(py_split s = []) = list_all isspace s"
  using py_split_aux_empty [of "[]" s] py_split_aux_all_space [of s "[]"]
  by (auto simp: py_split_def)

lemma loop_skip:
  assumes "py_split s = []"
  shows "sentence_loop mw st (pre @ s # post) = sentence_loop mw st (pre @ post)"
  using assms by (auto simp: loop_append sentence_step_def split: sum.splits)

lemma split_words_total:
  assumes "1 \<le> mw"
  shows "\<exists>cs. split_into_sentence_chunks t mw = Inr cs \<and> concat (map py_split cs) = py_split t"
proof (cases "t = []")
  case True
  then show ?thesis by (simp add: split_into_sentence_chunks_def py_split_Nil)
next
  case False
  let ?n = "collapse_ws (strip t)"
  from loop_words [OF assms, of init_chunker "re_split_sentences False [] ?n"]
  obtain st where st: "sentence_loop mw init_chunker (re_split_sentences False [] ?n) = Inr st"
    and w: "words_of st = words_of init_chunker @ concat (map py_split (re_split_sentences False [] ?n))"
    by blast
  have "concat (map py_split (chunks (flush st))) = words_of (flush st)"
    by (simp add: words_of_def cur_flush)
  also have "\<dots> = words_of st" by (rule flush_words)
  also have "\<dots> = py_split ?n"
    using w re_split_words [of False "[]" ?n] by (simp add: words_of_def init_chunker_def)
  also have "\<dots> = py_split t" by (simp add: py_split_collapse py_split_strip)
  finally have "concat (map py_split (chunks (flush st))) = py_split t" .
  with False st show ?thesis by (simp add: split_into_sentence_chunks_def)
qed

lemmas chunker_eval = split_into_sentence_chunks_def strip_def isspace_def is_terminal_def
  init_chunker_def sentence_step_def py_split_def hard_split_def flush_def range_slices.simps

section \<open>Properties of the generation gateway\<close>

lemma collapse_ws_spaces: "c \<in> set (collapse_ws s) \<Longrightarrow> isspace c \<Longrightarrow> c = CHR '' ''"
  by (induction s rule: collapse_ws.induct) (auto split: if_splits)

lemma set_strip: "set (strip s) \<subseteq> set s"
proof -
  have "set (strip s) \<subseteq> set (dropWhile isspace s)"
    unfolding strip_def using set_dropWhileD by fastforce
  also have "\<dots> \<subseteq> set s" using set_dropWhileD by fastforce
  finally show ?thesis .
qed

lemma default_topics_chars:
  "list_all (list_all (\<lambda>c. isword c \<or> c = CHR '' '' \<or> c = CHR ''-'')) default_topics"
  by (simp add: default_topics_def isword_def isalnum_def)

lemma sanitized_chars:
  "list_all (\<lambda>c. isword c \<or> c = CHR '' '' \<or> c = CHR ''-'')
     (filter (\<lambda>c. isword c \<or> isspace c \<or> c = CHR ''-'') (strip (collapse_ws raw)))"
proof -
  {
    fix c assume c: "c \<in> set (strip (collapse_ws raw))" and k: "isword c \<or> isspace c \<or> c = CHR ''-''"
    from c set_strip have "c \<in> set (collapse_ws raw)" by blast
    with k collapse_ws_spaces have "isword c \<or> c = CHR '' '' \<or> c = CHR ''-''" by blast
  }
  then show ?thesis by (auto simp: list_all_iff)
qed

lemma list_all_take: "list_all P xs \<Longrightarrow> list_all P (take n xs)"
  by (auto simp: list_all_iff dest: in_set_takeD)

lemma default_topic_pick:
  "default_topics ! (choice mod length default_topics) \<in> set default_topics"
  by (rule nth_mem) (simp add: default_topics_def)

lemma default_topics_nonempty: "t \<in> set default_topics \<Longrightarrow> t \<noteq> [] \<and> length t \<le> 64"
  by (auto simp: default_topics_def)

lemma join_nonempty: "2 \<le> length xs \<Longrightarrow> sep \<noteq> [] \<Longrightarrow> join sep xs \<noteq> []"
proof -
  assume l: "2 \<le> length xs" and s: "sep \<noteq> []"
  from l obtain x y ys where "xs = x # y # ys"
    by (cases xs; cases "tl xs") auto
  with s show ?thesis by simp
qed

lemma dummy_generate_nonempty:
  assumes "\<forall>seed xs. mset (sample seed xs) = mset xs"
  shows "dummy_generate sample prompt \<noteq> []"
proof -
  let ?ys = "sample (sum_list (map of_char prompt) mod 1000) samples"
  from assms have "mset ?ys = mset samples" by blast
  then have "length ?ys = length samples" by (rule mset_eq_length)
  then have "2 \<le> length ?ys" by (simp add: samples_def)
  then have "join [CHR 0x0A, CHR 0x0A] ?ys \<noteq> []" by (rule join_nonempty) simp
  then show ?thesis by (simp add: dummy_generate_def)
qed

lemmas llm_eval = generate_topic_def generate_def dummy_generate_def samples_def
  default_topics_def topic_prompt_def strip_def isspace_def isword_def isalnum_def
  sample_reversed_def

section \<open>Properties of the controller\<close>

lemma py_index_in_range:
  "0 \<le> i \<Longrightarrow> i < int (length xs) \<Longrightarrow> py_index xs i = Inr (xs ! nat i)"
  by (simp add: py_index_def)

lemma next_persona_done:
  assumes "int (length (persona_states c)) \<le> idx c + 1"
  shows "next_persona c =
    Inr (c\<lparr>idx := idx c + 1, ui_calls := ui_calls c @ [Show_status All_personas_complete]\<rparr>)"
  using assms by (simp add: next_persona_def Let_def)

lemma next_persona_visit:
  assumes "0 \<le> idx c + 1" "idx c + 1 < int (length (persona_states c))"
  shows "\<exists>c1. next_persona c = Inr c1 \<and> persona_states c1 = persona_states c \<and>
           idx c1 = idx c + 1 \<and> visited c1 = visited c @ [idx c + 1] \<and>
           worker_calls c1 = worker_calls c @ [Gen_topic] \<and>
           filter is_error_status (ui_calls c1) = filter is_error_status (ui_calls c)"
  using assms by (simp add: next_persona_def Let_def py_index_in_range)

lemma run_all_errors_from:
  assumes "- 1 \<le> idx c" "n = length (persona_states c)" "m = n - nat (idx c + 1)"
  shows "\<exists>c1 c'. next_persona c = Inr c1 \<and>
           run_all_errors msg (length (worker_calls c)) c1 = Inr c' \<and>
           persona_states c' = persona_states c \<and>
           idx c' = max (int n) (idx c + 1) \<and>
           visited c' = visited c @ map int [nat (idx c + 1) ..< n] \<and>
           worker_calls c' = worker_calls c @ replicate m Gen_topic \<and>
           length (filter is_error_status (ui_calls c')) =
             length (filter is_error_status (ui_calls c)) + m \<and>
           last (ui_calls c') = Show_status All_personas_complete"
  using assms
proof (induction m arbitrary: c)
  case 0
  then have d: "int (length (persona_states c)) \<le> idx c + 1" by simp
  let ?c1 = "c\<lparr>idx := idx c + 1, ui_calls := ui_calls c @ [Show_status All_personas_complete]\<rparr>"
  have r: "run_all_errors msg (length (worker_calls c)) ?c1 = Inr ?c1"
    by (simp add: run_all_errors.simps)
  from d 0 have "[nat (idx c + 1) ..< n] = []" by simp
  with next_persona_done [OF d] r d 0 show ?case by simp
next
  case (Suc m)
  then have lt: "idx c + 1 < int (length (persona_states c))" and ge: "0 \<le> idx c + 1" by simp_all
  from next_persona_visit [OF ge lt] obtain c1 where
    c1: "next_persona c = Inr c1" "persona_states c1 = persona_states c"
    "idx c1 = idx c + 1" "visited c1 = visited c @ [idx c + 1]"
    "worker_calls c1 = worker_calls c @ [Gen_topic]"
    "filter is_error_status (ui_calls c1) = filter is_error_status (ui_calls c)"
    by blast
  let ?c2 = "c1\<lparr>ui_calls := ui_calls c1 @ [Show_status (Error_status msg)]\<rparr>"
  have m: "m = n - nat (idx ?c2 + 1)" using Suc.prems c1 by simp
  have "- 1 \<le> idx ?c2" using c1 ge by simp
  from Suc.IH [OF this _ m] Suc.prems(2) c1
  obtain c3 c' where
    ih: "next_persona ?c2 = Inr c3"
    "run_all_errors msg (length (worker_calls ?c2)) c3 = Inr c'"
    "persona_states c' = persona_states ?c2"
    "idx c' = max (int n) (idx ?c2 + 1)"
    "visited c' = visited ?c2 @ map int [nat (idx ?c2 + 1) ..< n]"
    "worker_calls c' = worker_calls ?c2 @ replicate m Gen_topic"
    "length (filter is_error_status (ui_calls c')) =
       length (filter is_error_status (ui_calls ?c2)) + m"
    "last (ui_calls c') = Show_status All_personas_complete"
    by auto
  have run: "run_all_errors msg (length (worker_calls c)) c1 = Inr c'"
    using ih(1,2) c1(5)
    by (simp add: run_all_errors.simps [of msg "length (worker_calls c)" c1] on_worker_error_def)
  have upt: "[nat (idx c + 1) ..< n] = nat (idx c + 1) # [nat (idx c + 1 + 1) ..< n]"
    using lt ge Suc.prems(2) by (simp add: upt_conv_Cons nat_add_distrib Suc_nat_eq_nat_zadd1)
  have v: "visited c' = visited c @ map int [nat (idx c + 1) ..< n]"
    using ih(5) c1 ge by (simp add: upt)
  have i: "idx c' = max (int n) (idx c + 1)"
    using ih(4) c1 lt Suc.prems(2) by simp
  from c1 run ih v i show ?case by (simp add: replicate_append_same)
qed

lemmas controller_eval = start_def new_controller_def prepare_personas_def next_persona_def
  on_worker_error_def existing_def os_path_join_def py_index_def no_files_def demo_config_def
  demo_persona_def Let_def

section \<open>The claims about the sentence chunker\<close>

text \<open>
  C1. For every text and every \<open>max_words \<ge> 1\<close> the chunker returns a list of chunks,
  and the chunks joined by single spaces have exactly the words of the white-space
  normalised text, in the same order: no word is lost, duplicated or moved.
\<close>

theorem chunks_preserve_words:
  assumes "1 \<le> max_words"
  shows "\<exists>cs. split_into_sentence_chunks text max_words = Inr cs \<and>
           py_split (join '' '' cs) = py_split (collapse_ws (strip text))"
proof (cases "text = []")
  case True
  then show ?thesis by (simp add: split_into_sentence_chunks_def strip_Nil)
next
  case False
  let ?t = "collapse_ws (strip text)"
  from loop_words [OF assms, of init_chunker "re_split_sentences False [] ?t"]
  obtain st where st: "sentence_loop max_words init_chunker (re_split_sentences False [] ?t) = Inr st"
    and w: "words_of st = words_of init_chunker @ concat (map py_split (re_split_sentences False [] ?t))"
    by blast
  have "py_split (join '' '' (chunks (flush st))) = words_of (flush st)"
    by (simp add: py_split_join words_of_def cur_flush)
  also have "\<dots> = words_of st" by (rule flush_words)
  also have "\<dots> = py_split ?t"
    using w re_split_words [of False "[]" ?t] by (simp add: words_of_def init_chunker_def)
  finally have "py_split (join '' '' (chunks (flush st))) = py_split ?t" .
  with False st show ?thesis by (simp add: split_into_sentence_chunks_def)
qed

theorem chunks_preserve_words_witness:
  "(1::int) \<le> 3 \<and>
   split_into_sentence_chunks ''Hello world. This is a test sentence that is quite long indeed.'' 3 =
     Inr [''Hello world.'', ''This is a'', ''test sentence that'', ''is quite long'', ''indeed.''] \<and>
   py_split (join '' '' [''Hello world.'', ''This is a'', ''test sentence that'', ''is quite long'', ''indeed.'']) =
     py_split (collapse_ws (strip ''Hello world. This is a test sentence that is quite long indeed.''))"
  using chunks_preserve_words [of 3 "''Hello world. This is a test sentence that is quite long indeed.''"]
  by (simp add: chunker_eval)



text \<open>
  C5, as amended. For \<open>max_words \<ge> 1\<close> and every sentence of the text with
  \<open>n > max_words\<close> words, the list the chunker returns is three parts in a row. The
  first part is what the loop makes of the sentences before it, with its accumulator
  flushed. The second part is \<open>ceil (n / max_words)\<close> fragments of the sentence: the
  \<open>i\<close>-th one holds the words \<open>i * max_words\<close> up to \<open>(i + 1) * max_words\<close> of the
  sentence, so each has exactly \<open>max_words\<close> words except possibly the last, which has
  at least one, and together they are the sentence's words. The third part is what the
  loop, started afresh, makes of the sentences after it. So no fragment holds a word of
  a neighbouring sentence.
\<close>

theorem oversized_sentence_hard_split:
  assumes "1 \<le> max_words"
    and "re_split_sentences False [] (collapse_ws (strip text)) = pre @ s # post"
    and "max_words < int (length (py_split s))"
  shows "\<exists>before frags after st_pre st_post.
     split_into_sentence_chunks text max_words = Inr (before @ frags @ after) \<and>
     sentence_loop max_words init_chunker pre = Inr st_pre \<and> before = chunks (flush st_pre) \<and>
     sentence_loop max_words init_chunker post = Inr st_post \<and> after = chunks (flush st_post) \<and>
     length frags = (length (py_split s) + nat max_words - 1) div nat max_words \<and>
     (\<forall>i < length frags.
        py_split (frags ! i) = take (nat max_words) (drop (i * nat max_words) (py_split s)) \<and>
        (i + 1 < length frags \<longrightarrow> length (py_split (frags ! i)) = nat max_words) \<and>
        1 \<le> length (py_split (frags ! i)) \<and> length (py_split (frags ! i)) \<le> nat max_words) \<and>
     concat (map py_split frags) = py_split s"
proof -
  have mw0: "0 \<le> max_words" using assms(1) by simp
  have ne: "text \<noteq> []"
  proof
    assume "text = []"
    with assms(2) have "[[]] = pre @ s # post" by (simp add: strip_Nil)
    then have "s = []" by (cases pre) auto
    with assms(1,3) show False by (simp add: py_split_Nil)
  qed
  from loop_total [OF assms(1)] obtain st_pre where
    pre: "sentence_loop max_words init_chunker pre = Inr st_pre" by blast
  from loop_total [OF assms(1)] obtain st_post where
    post: "sentence_loop max_words init_chunker post = Inr st_post" by blast
  have inv: "chunk_inv max_words st_pre"
    by (rule chunk_inv_loop [OF assms(1) chunk_inv_init [OF mw0] pre])
  from oversized_step [OF assms(1,3), of st_pre] obtain frags where
    step: "sentence_step max_words st_pre s =
      Inr ((flush st_pre)\<lparr>chunks := chunks (flush st_pre) @ frags\<rparr>)"
    and len: "length frags = (length (py_split s) + nat max_words - 1) div nat max_words"
    and nth: "\<forall>i < length frags.
        py_split (frags ! i) = take (nat max_words) (drop (i * nat max_words) (py_split s)) \<and>
        (i + 1 < length frags \<longrightarrow> length (py_split (frags ! i)) = nat max_words) \<and>
        1 \<le> length (py_split (frags ! i)) \<and> length (py_split (frags ! i)) \<le> nat max_words"
    and cc: "concat (map py_split frags) = py_split s"
    by blast
  let ?p = "chunks (flush st_pre) @ frags"
  have st1: "(flush st_pre)\<lparr>chunks := chunks (flush st_pre) @ frags\<rparr> =
      init_chunker\<lparr>chunks := ?p @ chunks init_chunker\<rparr>"
    using flush_cur_words [OF inv] by (simp add: init_chunker_def cur_flush)
  have rest: "sentence_loop max_words (init_chunker\<lparr>chunks := ?p @ chunks init_chunker\<rparr>) post =
      Inr (st_post\<lparr>chunks := ?p @ chunks st_post\<rparr>)"
    by (rule loop_shift [OF post])
  have whole: "sentence_loop max_words init_chunker (pre @ s # post) =
      Inr (st_post\<lparr>chunks := ?p @ chunks st_post\<rparr>)"
    using pre step rest by (simp add: loop_append st1)
  have fin: "chunks (flush (st_post\<lparr>chunks := ?p @ chunks st_post\<rparr>)) = ?p @ chunks (flush st_post)"
    using flush_shift [where st = st_post and p = ?p] by simp
  have res: "split_into_sentence_chunks text max_words =
      Inr (chunks (flush st_pre) @ frags @ chunks (flush st_post))"
    using ne assms(2) whole fin by (simp add: split_into_sentence_chunks_def)
  from res pre post len nth cc show ?thesis by blast
qed

theorem oversized_sentence_hard_split_witness:
  "(1::int) \<le> 2 \<and>
   re_split_sentences False [] (collapse_ws (strip ''X. Y z. a b c d e. Q.'')) =
     [''X.'', ''Y z.''] @ ''a b c d e.'' # [''Q.''] \<and>
   (2::int) < int (length (py_split ''a b c d e.'')) \<and>
   split_into_sentence_chunks ''X. Y z. a b c d e. Q.'' 2 =
     Inr ([''X.'', ''Y z.''] @ [''a b'', ''c d'', ''e.''] @ [''Q.'']) \<and>
   sentence_loop 2 init_chunker [''X.'', ''Y z.''] =
     Inr \<lparr>chunks = [''X.''], cur = [''Y z.''], cur_words = 2\<rparr> \<and>
   chunks (flush \<lparr>chunks = [''X.''], cur = [''Y z.''], cur_words = 2\<rparr>) = [''X.'', ''Y z.''] \<and>
   sentence_loop 2 init_chunker [''Q.''] = Inr \<lparr>chunks = [], cur = [''Q.''], cur_words = 1\<rparr> \<and>
   chunks (flush \<lparr>chunks = [], cur = [''Q.''], cur_words = 1\<rparr>) = [''Q.''] \<and>
   (length (py_split ''a b c d e.'') + nat 2 - 1) div nat 2 = 3"
  using oversized_sentence_hard_split [of 2 "''X. Y z. a b c d e. Q.''" "[''X.'', ''Y z.'']"
      "''a b c d e.''" "[''Q.'']"]
  by (simp add: chunker_eval)

text \<open>
  C5 as stated, for every \<open>max_words\<close>, fails where \<open>max_words\<close> is not positive: a
  sentence of two words exceeds a budget of \<open>0\<close> and of \<open>-1\<close>; with \<open>0\<close> the slicing
  loop raises, and with \<open>-1\<close> it emits no fragment and the sentence is lost. The only
  caller passes \<open>max(40, mw)\<close>.
\<close>

theorem oversized_sentence_bad_budget_counterexample:
  "(0::int) < int (length (py_split ''a b'')) \<and>
   split_into_sentence_chunks ''a b'' 0 = Inl ValueError \<and>
   (- 1::int) < int (length (py_split ''a b'')) \<and>
   split_into_sentence_chunks ''a b'' (- 1) = Inr []"
  by (simp add: chunker_eval)

text \<open>
  C9, as amended. The empty string, the string of three spaces and every string of
  white space only give the empty list of chunks, for every \<open>max_words\<close> (in particular
  for \<open>max_words \<ge> 1\<close>). A sentence has no word exactly when it is white space only
  (or empty); such a sentence leaves the state of the loop unchanged, and the chunker
  returns what it returns for the other sentences alone. For \<open>max_words \<ge> 1\<close>, a text
  that is not white space only gives at least one chunk.
\<close>

theorem blank_input_no_chunks:
  "split_into_sentence_chunks [] max_words = Inr [] \<and>
   split_into_sentence_chunks ''   '' max_words = Inr [] \<and>
   (list_all isspace text \<longrightarrow> split_into_sentence_chunks text max_words = Inr []) \<and>
   (py_split s = []) = list_all isspace s \<and>
   (py_split s = [] \<longrightarrow>
      sentence_step max_words st s = Inr st \<and>
      sentence_loop max_words st (pre @ s # post) = sentence_loop max_words st (pre @ post)) \<and>
   (py_split s = [] \<and> re_split_sentences False [] (collapse_ws (strip text)) = pre @ s # post \<longrightarrow>
      split_into_sentence_chunks text max_words =
        (case sentence_loop max_words init_chunker (pre @ post) of
           Inl e \<Rightarrow> Inl e
         | Inr st' \<Rightarrow> Inr (chunks (flush st')))) \<and>
   (1 \<le> max_words \<and> \<not> list_all isspace text \<longrightarrow>
      (\<exists>cs. split_into_sentence_chunks text max_words = Inr cs \<and> cs \<noteq> []))"
proof (intro conjI impI)
  show "split_into_sentence_chunks [] max_words = Inr []"
    by (simp add: split_into_sentence_chunks_def)
next
  have blank: "split_into_sentence_chunks t max_words = Inr []" if "list_all isspace t" for t
    using strip_blank [OF that]
    by (simp add: split_into_sentence_chunks_def sentence_step_def py_split_Nil
        init_chunker_def flush_def)
  show "split_into_sentence_chunks ''   '' max_words = Inr []"
    by (rule blank) (simp add: isspace_def)
  show "split_into_sentence_chunks text max_words = Inr []" if "list_all isspace text"
    by (rule blank [OF that])
next
  show "(py_split s = []) = list_all isspace s" by (rule py_split_empty_iff)
next
  show "sentence_step max_words st s = Inr st" if "py_split s = []"
    using that by (simp add: sentence_step_def)
next
  show "sentence_loop max_words st (pre @ s # post) = sentence_loop max_words st (pre @ post)"
    if "py_split s = []"
    by (rule loop_skip [OF that])
next
  assume a: "py_split s = [] \<and>
    re_split_sentences False [] (collapse_ws (strip text)) = pre @ s # post"
  show "split_into_sentence_chunks text max_words =
        (case sentence_loop max_words init_chunker (pre @ post) of
           Inl e \<Rightarrow> Inl e
         | Inr st' \<Rightarrow> Inr (chunks (flush st')))"
  proof (cases "text = []")
    case True
    with a have "[[]] = pre @ s # post" by (simp add: strip_Nil)
    then have "pre = [] \<and> post = []" by (cases pre) auto
    with True show ?thesis
      by (simp add: split_into_sentence_chunks_def init_chunker_def flush_def)
  next
    case False
    with a loop_skip [of s max_words init_chunker pre post] show ?thesis
      by (simp add: split_into_sentence_chunks_def)
  qed
next
  assume a: "1 \<le> max_words \<and> \<not> list_all isspace text"
  from split_words_total [of max_words] a obtain cs where
    cs: "split_into_sentence_chunks text max_words = Inr cs"
    "concat (map py_split cs) = py_split text" by blast
  from a have "py_split text \<noteq> []" by (simp add: py_split_empty_iff)
  with cs(2) have "cs \<noteq> []" by auto
  with cs(1) show "\<exists>cs. split_into_sentence_chunks text max_words = Inr cs \<and> cs \<noteq> []" by blast
qed

theorem blank_input_no_chunks_witness:
  "split_into_sentence_chunks [] 5 = Inr [] \<and>
   split_into_sentence_chunks ''   '' 5 = Inr [] \<and>
   list_all isspace [CHR 0x09, CHR '' '', CHR 0x0A] \<and>
   split_into_sentence_chunks [CHR 0x09, CHR '' '', CHR 0x0A] 5 = Inr [] \<and>
   py_split [] = [] \<and>
   re_split_sentences False [] (collapse_ws (strip [CHR 0x09, CHR '' '', CHR 0x0A])) = [] @ [] # [] \<and>
   sentence_step 5 \<lparr>chunks = [''A b.''], cur = [''C.''], cur_words = 1\<rparr> [] =
     Inr \<lparr>chunks = [''A b.''], cur = [''C.''], cur_words = 1\<rparr> \<and>
   (1::int) \<le> 5 \<and> \<not> list_all isspace ''Hi. . Bye.'' \<and>
   split_into_sentence_chunks ''Hi. . Bye.'' 5 = Inr [''Hi. . Bye.'']"
  using blank_input_no_chunks [of 5 "[CHR 0x09, CHR '' '', CHR 0x0A]" "[]"
      "\<lparr>chunks = [''A b.''], cur = [''C.''], cur_words = 1\<rparr>" "[]" "[]"]
    blank_input_no_chunks [of 5 "''Hi. . Bye.''" "[]"
      "\<lparr>chunks = [''A b.''], cur = [''C.''], cur_words = 1\<rparr>" "[]" "[]"]
  by (simp add: chunker_eval)

text \<open>
  C9 as stated names stray punctuation as a sentence with no word. It is not one:
  \<open>".".split()\<close> is the one word \<open>.\<close>, so the sentence \<open>.\<close> is kept and becomes a chunk.
\<close>

theorem stray_punctuation_counterexample:
  "re_split_sentences False [] (collapse_ws (strip ''Hi. . Bye.'')) = [''Hi.'', ''.'', ''Bye.''] \<and>
   py_split ''.'' = [''.''] \<and>
   split_into_sentence_chunks ''Hi. . Bye.'' 1 = Inr [''Hi.'', ''.'', ''Bye.'']"
  by (simp add: chunker_eval)

text \<open>
  C10. For every text and every \<open>max_words \<ge> 1\<close>, every returned chunk is a non-empty
  string with at least one word.
\<close>

theorem chunks_nonempty:
  assumes "1 \<le> max_words"
  shows "\<exists>cs. split_into_sentence_chunks text max_words = Inr cs \<and>
           list_all (\<lambda>c. c \<noteq> [] \<and> py_split c \<noteq> []) cs"
proof -
  from chunker_result [OF assms] obtain cs where
    cs: "split_into_sentence_chunks text max_words = Inr cs"
    "list_all (\<lambda>c. py_split c \<noteq> [] \<and> int (length (py_split c)) \<le> max_words) cs" by blast
  from cs(2) have "list_all (\<lambda>c. c \<noteq> [] \<and> py_split c \<noteq> []) cs"
    by (auto simp: list_all_iff py_split_Nil)
  with cs(1) show ?thesis by blast
qed

theorem chunks_nonempty_witness:
  "(1::int) \<le> 2 \<and>
   split_into_sentence_chunks ''Go. A b c. D.'' 2 = Inr [''Go.'', ''A b'', ''c.'', ''D.''] \<and>
   list_all (\<lambda>c. c \<noteq> [] \<and> py_split c \<noteq> []) [''Go.'', ''A b'', ''c.'', ''D.'']"
  using chunks_nonempty [of 2 "''Go. A b c. D.''"]
  by (simp add: chunker_eval)

section \<open>The claims about the generation gateway\<close>

text \<open>
  C3, as amended. For every availability and every outcome of the backend call,
  \<open>generate_topic\<close> returns a non-empty string of at most 64 characters, each of which
  is a word character (alphanumeric or underscore), a plain space or a hyphen; and when
  the sanitised line is empty, the result is one of the four built-in topics.
\<close>

theorem generate_topic_sanitized:
  "generate_topic sample choice available outcome \<noteq> [] \<and>
   length (generate_topic sample choice available outcome) \<le> 64 \<and>
   list_all (\<lambda>c. isword c \<or> c = CHR '' '' \<or> c = CHR ''-'')
     (generate_topic sample choice available outcome) \<and>
   (filter (\<lambda>c. isword c \<or> isspace c \<or> c = CHR ''-'')
      (strip (collapse_ws (generate sample available outcome topic_prompt 24))) = [] \<longrightarrow>
    generate_topic sample choice available outcome \<in> set default_topics)"
proof -
  define line where "line = filter (\<lambda>c. isword c \<or> isspace c \<or> c = CHR ''-'')
      (strip (collapse_ws (generate sample available outcome topic_prompt 24)))"
  have gt: "generate_topic sample choice available outcome =
      (if line \<noteq> [] then take 64 line else default_topics ! (choice mod length default_topics))"
    by (simp add: generate_topic_def line_def)
  have chars: "list_all (\<lambda>c. isword c \<or> c = CHR '' '' \<or> c = CHR ''-'') line"
    unfolding line_def by (rule sanitized_chars)
  show ?thesis
  proof (cases "line = []")
    case True
    with gt have g: "generate_topic sample choice available outcome =
        default_topics ! (choice mod length default_topics)" by simp
    from default_topic_pick have m: "generate_topic sample choice available outcome \<in> set default_topics"
      unfolding g .
    from default_topics_chars m
    have "list_all (\<lambda>c. isword c \<or> c = CHR '' '' \<or> c = CHR ''-'')
        (generate_topic sample choice available outcome)"
      by (simp add: list_all_iff)
    with default_topics_nonempty [OF m] m show ?thesis by simp
  next
    case False
    with gt have g: "generate_topic sample choice available outcome = take 64 line" by simp
    from False have "take 64 line \<noteq> []" by simp
    moreover have "length (take 64 line) \<le> 64" by simp
    moreover from chars have "list_all (\<lambda>c. isword c \<or> c = CHR '' '' \<or> c = CHR ''-'') (take 64 line)"
      by (rule list_all_take)
    ultimately show ?thesis unfolding g using False by (simp add: line_def [symmetric])
  qed
qed

theorem generate_topic_sanitized_witness:
  "filter (\<lambda>c. isword c \<or> isspace c \<or> c = CHR ''-'')
      (strip (collapse_ws (generate sample_reversed True (Returned ''?!'') topic_prompt 24))) = [] \<and>
   generate_topic sample_reversed 6 True (Returned ''?!'') = ''old libraries'' \<and>
   generate_topic sample_reversed 6 True (Returned ''?!'') \<in> set default_topics \<and>
   generate_topic sample_reversed 6 True (Returned '' rainy-day  plans! '') = ''rainy-day plans''"
  using generate_topic_sanitized [of sample_reversed 6 True "Returned ''?!''"]
  by (simp add: llm_eval)

text \<open>
  C3 as stated fails: for the backend text \<open>x_y . z\<close> the topic is \<open>x_y  z\<close>, which keeps
  the underscore (a word character that is not alphanumeric) and has two spaces in a
  row, left where \<open>.\<close> was removed after the white space had been collapsed.
\<close>

theorem generate_topic_counterexample:
  "generate_topic sample_reversed 0 True (Returned ''x_y . z'') = ''x_y  z'' \<and>
   \<not> topic_as_claimed (generate_topic sample_reversed 0 True (Returned ''x_y . z'')) \<and>
   collapse_ws ''x_y  z'' \<noteq> ''x_y  z'' \<and>
   \<not> list_all (\<lambda>c. isalnum c \<or> isspace c \<or> c = CHR ''-'') ''x_y  z''"
  by (simp add: llm_eval topic_as_claimed_def)

text \<open>
  C4, as amended. When the backend is unavailable or the call raises, \<open>generate\<close>
  returns the fallback text, which is non-empty: the three filler paragraphs in some
  order, joined by blank lines, the order depending on the prompt only through the sum
  of its character codes modulo 1000. When the backend is available and returns a
  text, \<open>generate\<close> returns that text stripped.
\<close>

theorem generate_falls_back:
  assumes "\<forall>seed xs. mset (sample seed xs) = mset xs"
  shows "(\<not> available \<or> outcome = Raised \<longrightarrow>
            generate sample available outcome prompt max_tokens = dummy_generate sample prompt \<and>
            generate sample available outcome prompt max_tokens \<noteq> []) \<and>
         (\<exists>ys. mset ys = mset samples \<and>
            dummy_generate sample prompt = join [CHR 0x0A, CHR 0x0A] ys) \<and>
         ((sum_list (map of_char prompt) :: nat) mod 1000 = sum_list (map of_char prompt') mod 1000 \<longrightarrow>
            dummy_generate sample prompt = dummy_generate sample prompt') \<and>
         (available \<longrightarrow>
            generate sample available (Returned out_text) prompt max_tokens = strip out_text)"
proof (intro conjI impI)
  assume "\<not> available \<or> outcome = Raised"
  then show g: "generate sample available outcome prompt max_tokens = dummy_generate sample prompt"
    by (auto simp: generate_def)
  show "generate sample available outcome prompt max_tokens \<noteq> []"
    unfolding g by (rule dummy_generate_nonempty [OF assms])
next
  from assms have "mset (sample (sum_list (map of_char prompt) mod 1000) samples) = mset samples"
    by blast
  then show "\<exists>ys. mset ys = mset samples \<and>
      dummy_generate sample prompt = join [CHR 0x0A, CHR 0x0A] ys"
    by (auto simp: dummy_generate_def)
next
  assume "(sum_list (map of_char prompt) :: nat) mod 1000 = sum_list (map of_char prompt') mod 1000"
  then show "dummy_generate sample prompt = dummy_generate sample prompt'"
    by (simp add: dummy_generate_def)
next
  assume available
  then show "generate sample available (Returned out_text) prompt max_tokens = strip out_text"
    by (simp add: generate_def)
qed

theorem generate_falls_back_witness:
  "generate sample_reversed False (Returned ''abc'') ''Hi'' 512 = dummy_generate sample_reversed ''Hi'' \<and>
   generate sample_reversed True Raised ''Hi'' 512 = dummy_generate sample_reversed ''Hi'' \<and>
   dummy_generate sample_reversed ''Hi'' = join [CHR 0x0A, CHR 0x0A] (rev samples) \<and>
   dummy_generate sample_reversed ''Hi'' \<noteq> [] \<and>
   (sum_list (map of_char ''Hi'') :: nat) mod 1000 = sum_list (map of_char ''iH'') mod 1000 \<and>
   dummy_generate sample_reversed ''Hi'' = dummy_generate sample_reversed ''iH'' \<and>
   generate sample_reversed True (Returned '' abc '') ''Hi'' 512 = ''abc''"
proof -
  have h: "\<forall>seed xs. mset (sample_reversed seed xs) = mset xs"
    by (simp add: sample_reversed_def)
  from generate_falls_back [OF h, of False Raised "''Hi''" 512 "''iH''" "'' abc ''"]
       generate_falls_back [OF h, of True Raised "''Hi''" 512 "''iH''" "'' abc ''"]
  show ?thesis by (simp add: llm_eval)
qed

text \<open>
  C4 as stated fails: when the backend is available and returns a blank text,
  \<open>generate\<close> returns the empty string.
\<close>

theorem generate_empty_counterexample:
  "generate sample_reversed True (Returned ''  '') ''Tell me a story'' 512 = []"
  by (simp add: llm_eval)

section \<open>The claim about the controller\<close>

text \<open>
  C6. Started on any configuration, in a run where every call on the worker is
  answered by the error signal, the controller reads every prepared persona exactly
  once, in order; it makes one topic call for each and no other call (no retry, no
  monologue call), shows one error status for each, and ends with the index past the
  last persona and the status that all personas are complete.
\<close>

theorem all_errors_visit_every_persona_once:
  "\<exists>c1 c'. start shuffle cfg (new_controller exists) = Inr c1 \<and>
     run_all_errors msg 0 c1 = Inr c' \<and>
     persona_states c' = persona_states (prepare_personas shuffle cfg (new_controller exists)) \<and>
     visited c' = map int [0 ..< length (persona_states c')] \<and>
     idx c' = int (length (persona_states c')) \<and>
     worker_calls c' = replicate (length (persona_states c')) Gen_topic \<and>
     length (filter is_error_status (ui_calls c')) = length (persona_states c') \<and>
     last (ui_calls c') = Show_status All_personas_complete"
proof -
  let ?ini = "new_controller exists"
  let ?shown = "?ini\<lparr>ui_calls := ui_calls ?ini @
      [Set_background (existing ?ini (os_path_join ''assets'' ''startup.jpg'')), Show_status App_started]\<rparr>"
  let ?prep = "prepare_personas shuffle cfg ?shown"
  have st: "start shuffle cfg ?ini = next_persona ?prep"
    by (simp add: start_def Let_def)
  have facts: "idx ?prep = - 1" "worker_calls ?prep = []" "visited ?prep = []"
    "filter is_error_status (ui_calls ?prep) = []"
    "persona_states ?prep = persona_states (prepare_personas shuffle cfg ?ini)"
    by (simp_all add: prepare_personas_def new_controller_def Let_def)
  from run_all_errors_from [of ?prep "length (persona_states ?prep)" "length (persona_states ?prep)" msg]
  obtain c1 c' where
    r: "next_persona ?prep = Inr c1"
    "run_all_errors msg (length (worker_calls ?prep)) c1 = Inr c'"
    "persona_states c' = persona_states ?prep"
    "idx c' = max (int (length (persona_states ?prep))) (idx ?prep + 1)"
    "visited c' = visited ?prep @ map int [nat (idx ?prep + 1) ..< length (persona_states ?prep)]"
    "worker_calls c' = worker_calls ?prep @ replicate (length (persona_states ?prep)) Gen_topic"
    "length (filter is_error_status (ui_calls c')) =
       length (filter is_error_status (ui_calls ?prep)) + length (persona_states ?prep)"
    "last (ui_calls c') = Show_status All_personas_complete"
    unfolding facts(1) by auto
  show ?thesis
    apply (rule exI [of _ c1], rule exI [of _ c'])
    using r unfolding st facts by simp
qed

theorem all_errors_visit_every_persona_once_witness:
  "(case start rev demo_config (new_controller no_files) of
      Inl e \<Rightarrow> False
    | Inr c1 \<Rightarrow>
        (case run_all_errors ''boom'' 0 c1 of
           Inl e \<Rightarrow> False
         | Inr c' \<Rightarrow>
             visited c' = [0, 1] \<and> idx c' = 2 \<and> worker_calls c' = [Gen_topic, Gen_topic] \<and>
             map ps_persona (persona_states c') = [demo_persona ''cy'', demo_persona ''bob''] \<and>
             last (ui_calls c') = Show_status All_personas_complete))"
  using all_errors_visit_every_persona_once [of rev demo_config no_files "''boom''"]
  by (simp add: controller_eval run_all_errors.simps)

section \<open>The claim about the playback engine\<close>

text \<open>
  C7. \<open>play_chunks\<close> with an empty chunk sequence (an empty list, or \<open>None\<close>) sets the
  index to \<open>-1\<close>, clears the balloon and hands the emission of the finished signal to a
  single-shot timer of 300 milliseconds; it does nothing else, so it starts no fade-in
  and no fade-out.
\<close>

theorem play_empty_chunks_schedules_finished:
  "\<exists>u'. play_chunks u (Some []) duration_s = Inr u' \<and>
         play_chunks u None duration_s = Inr u' \<and>
         chunk_idx u' = - 1 \<and> ui_chunks u' = [] \<and>
         ui_effects u' = ui_effects u @
           [Balloon_setText [], Timer_singleShot 300 Emit_chunkPlaybackFinished] \<and>
         filter starts_fade (ui_effects u') = filter starts_fade (ui_effects u)"
  by (simp add: play_chunks_def Let_def)

end
